theory Spec2Isabelle
  imports Complex_Main "HOL-Library.Monad_Syntax" "HOL-Library.Multiset"
begin

section \<open>Data model (main.go, lines 18-36)\<close>

text \<open>
  The pool is a Go slice of pointers to \<open>Node\<close> structs. A pointer is modelled as an
  address \<open>ref\<close>, the structs live in a store \<open>heap\<close> from addresses to node values, and
  the slice \<open>nodes\<close> is the list of addresses in slice order. Swapping two slice entries
  moves addresses only; writing a node's weight changes the store only.

  The weight field is a float64 in the source. It is modelled as a real number: halving,
  doubling and dividing by three are exact here, whereas float64 rounds the division by
  three and loses the last bit of a halved subnormal. All comparisons are modelled as the
  source writes them.

  The fields \<open>mutex\<close> (locking), \<open>ReverseProxy\<close> (the forwarding capability, modelled
  below by an outcome oracle per node) and \<open>NodePool.current\<close> (the counter of the
  disabled round-robin mode, read and written only by \<open>NextIdx\<close>, which nothing calls)
  are not part of the state.

  A panic of the Go runtime (index out of range) is the result \<open>None\<close>.
\<close>

type_synonym ref = nat

record Node =
  URL :: string
  Active :: bool
  weight :: real

record NodePool =
  nodes :: "ref list"
  heap :: "ref \<Rightarrow> Node"

text \<open>The nullable pointer that \<open>NextNode\<close> returns and \<open>loadBalancer\<close> tests against nil.\<close>

datatype ptr = Null | Ptr ref

text \<open>Keys of the per-request context values (the constants \<open>Attempts\<close> and \<open>Retry\<close>).\<close>

datatype ctxkey = Attempts | Retry

type_synonym ctx = "ctxkey \<Rightarrow> int option"

section \<open>Node pool operations\<close>

text \<open>\<open>AddNode\<close> (lines 39-41).\<close>

definition AddNode :: "NodePool \<Rightarrow> ref \<Rightarrow> NodePool" where
  "AddNode np n = np\<lparr>nodes := nodes np @ [n]\<rparr>"

text \<open>\<open>isActive\<close> and \<open>getWeight\<close> (lines 49-63), on the node an address points to.\<close>

definition isActive :: "NodePool \<Rightarrow> ref \<Rightarrow> bool" where
  "isActive np n = Active (heap np n)"

definition getWeight :: "NodePool \<Rightarrow> ref \<Rightarrow> real" where
  "getWeight np n = weight (heap np n)"

text \<open>\<open>Swap\<close> (lines 66-70): both slice reads panic when out of range.\<close>

definition Swap :: "NodePool \<Rightarrow> nat \<Rightarrow> nat \<Rightarrow> NodePool option" where
  "Swap np i j =
     (if i < length (nodes np) \<and> j < length (nodes np)
      then Some (np\<lparr>nodes := (nodes np)[i := nodes np ! j, j := nodes np ! i]\<rparr>)
      else None)"

text \<open>The in-place weight updates \<open>n.weight /= 2\<close> and \<open>n.weight *= 2\<close> of lines 79 and 92.\<close>

definition scale_weight :: "NodePool \<Rightarrow> ref \<Rightarrow> (real \<Rightarrow> real) \<Rightarrow> NodePool" where
  "scale_weight np n f =
     np\<lparr>heap := (heap np)(n := (heap np n)\<lparr>weight := f (weight (heap np n))\<rparr>)\<rparr>"

text \<open>
  The comparison phase of \<open>Heapify\<close> (lines 74-76 and 82-88): the index among \<open>idx\<close> and its
  two children that the source ends up with in \<open>largest\<close>. A child takes part only when it
  is in bounds and active; whether the node at \<open>idx\<close> is active is never asked.
\<close>

definition pick_largest :: "NodePool \<Rightarrow> nat \<Rightarrow> nat" where
  "pick_largest np idx =
     (let largest = idx;
          left = 2 * idx + 1;
          right = 2 * idx + 2;
          largest = (if left < length (nodes np) \<and> isActive np (nodes np ! left)
                        \<and> getWeight np (nodes np ! left) > getWeight np (nodes np ! largest)
                     then left else largest);
          largest = (if right < length (nodes np) \<and> isActive np (nodes np ! right)
                        \<and> getWeight np (nodes np ! right) > getWeight np (nodes np ! largest)
                     then right else largest)
      in largest)"

text \<open>
  The speculative halving of lines 78-80 and its undoing of lines 91-93, both done only
  when \<open>isRoot\<close> holds.
\<close>

definition halve_root :: "NodePool \<Rightarrow> nat \<Rightarrow> bool \<Rightarrow> NodePool" where
  "halve_root np idx isRoot =
     (if isRoot then scale_weight np (nodes np ! idx) (\<lambda>w. w / 2) else np)"

definition restore_root :: "NodePool \<Rightarrow> nat \<Rightarrow> bool \<Rightarrow> NodePool" where
  "restore_root np idx isRoot =
     (if isRoot then scale_weight np (nodes np ! idx) (\<lambda>w. w * 2) else np)"

text \<open>
  \<open>Heapify\<close> (lines 73-107). The index is a uint64 in the source; a Go slice has fewer than
  \<open>2 ^ 63\<close> elements, so for an index in bounds \<open>2 * idx + 2\<close> does not wrap and the index
  is a natural number here. The only slice access not guarded by a bounds test is
  \<open>np.nodes[idx]\<close> of line 79, reached when \<open>isRoot\<close> holds. (The source's parameter
  \<open>root\<close> is \<open>isRoot\<close> here, \<open>root\<close> being a constant of the library.)
\<close>

function Heapify :: "NodePool \<Rightarrow> nat \<Rightarrow> bool \<Rightarrow> NodePool option" where
  "Heapify np idx isRoot =
     (let left = 2 * idx + 1;
          right = 2 * idx + 2
      in if isRoot \<and> length (nodes np) \<le> idx then None
         else do {
           let np1 = halve_root np idx isRoot;
           let largest = pick_largest np1 idx;
           np2 \<leftarrow> (if largest \<noteq> idx
                   then do {
                     sw \<leftarrow> Swap (restore_root np1 idx isRoot) largest idx;
                     Heapify sw largest False }
                   else Some np1);
           np3 \<leftarrow> (if left < length (nodes np2) \<and> getWeight np2 (nodes np2 ! left) < 1
                   then Heapify np2 left False else Some np2);
           (if right < length (nodes np3) \<and> getWeight np3 (nodes np3 ! right) < 1
            then Heapify np3 right False else Some np3)
         })"
  by pat_completeness auto

text \<open>\<open>NextNode\<close> (lines 110-125): the slice read \<open>np.nodes[0]\<close> panics on an empty slice.\<close>

definition NextNode :: "NodePool \<Rightarrow> ptr option" where
  "NextNode np = (if 0 < length (nodes np) then Some (Ptr (nodes np ! 0)) else None)"

text \<open>\<open>SetProps\<close> (lines 157-166), on a node value and on the node an address points to.\<close>

definition SetProps :: "Node \<Rightarrow> bool \<Rightarrow> Node" where
  "SetProps n status =
     (let n1 = n\<lparr>Active := status\<rparr>
      in if \<not> status then n1\<lparr>weight := weight n1 / 3\<rparr>
         else if weight n1 < 1 then n1\<lparr>weight := weight n1 * 2\<rparr>
         else n1)"

definition SetProps_at :: "NodePool \<Rightarrow> ref \<Rightarrow> bool \<Rightarrow> NodePool" where
  "SetProps_at np n status = np\<lparr>heap := (heap np)(n := SetProps (heap np n) status)\<rparr>"

text \<open>
  \<open>SetNodeStatus\<close> (lines 184-191): the loop over the slice stops at the first node whose
  URL string equals the given one.
\<close>

fun SetNodeStatus_loop :: "NodePool \<Rightarrow> ref list \<Rightarrow> string \<Rightarrow> bool \<Rightarrow> NodePool" where
  "SetNodeStatus_loop np [] url status = np"
| "SetNodeStatus_loop np (n # ns) url status =
     (if URL (heap np n) = url then SetProps_at np n status
      else SetNodeStatus_loop np ns url status)"

definition SetNodeStatus :: "NodePool \<Rightarrow> string \<Rightarrow> bool \<Rightarrow> NodePool" where
  "SetNodeStatus np url status = SetNodeStatus_loop np (nodes np) url status"

text \<open>
  \<open>HealthCheck\<close> (lines 170-181). The range loop fixes the number of iterations \<open>k\<close> when it
  starts and reads the slice entry of iteration \<open>i\<close> when that iteration starts, so a
  node moved by an earlier \<open>Heapify\<close> of the same cycle is seen where it now is. The probe
  \<open>Status\<close> (a TCP dial) is the oracle \<open>status\<close>: the result of probing node \<open>n\<close> in
  iteration \<open>i\<close>. No operation changes the length of the slice, so entry \<open>i\<close> is always
  there; the model's \<open>None\<close> for a missing entry is never the result of a cycle.
\<close>

function HealthCheck_loop ::
  "(nat \<Rightarrow> ref \<Rightarrow> bool) \<Rightarrow> nat \<Rightarrow> nat \<Rightarrow> NodePool \<Rightarrow> NodePool option" where
  "HealthCheck_loop status k i np =
     (if i < k
      then (if i < length (nodes np)
            then do {
              let n = nodes np ! i;
              let np1 = SetProps_at np n (status i n);
              np2 \<leftarrow> (if \<not> status i n then Heapify np1 i False else Some np1);
              HealthCheck_loop status k (i + 1) np2 }
            else None)
      else Some np)"
  by pat_completeness auto
termination
  by (relation "measure (\<lambda>(status, k, i, np). k - i)") auto

definition HealthCheck :: "(nat \<Rightarrow> ref \<Rightarrow> bool) \<Rightarrow> NodePool \<Rightarrow> NodePool option" where
  "HealthCheck status np = HealthCheck_loop status (length (nodes np)) 0 np"

text \<open>
  The loop of \<open>main\<close> that builds the pool (lines 235-275): one freshly allocated node per
  configured address, active and of weight 1, appended in order. The fresh address is the
  number of nodes allocated so far.
\<close>

fun main_loop :: "NodePool \<Rightarrow> string list \<Rightarrow> NodePool" where
  "main_loop np [] = np"
| "main_loop np (nodeURL # rest) =
     (let n = length (nodes np);
          np1 = np\<lparr>heap := (heap np)(n := \<lparr>URL = nodeURL, Active = True, weight = 1\<rparr>)\<rparr>
      in main_loop (AddNode np1 n) rest)"

definition startup :: "string list \<Rightarrow> NodePool" where
  "startup nodeList =
     main_loop \<lparr>nodes = [], heap = (\<lambda>n. \<lparr>URL = [], Active = False, weight = 0\<rparr>)\<rparr> nodeList"

section \<open>Request dispatch (lines 128-143, 194-207 and 241-266)\<close>

text \<open>\<open>GetAttemptsFromContext\<close> and \<open>GetRetryFromContext\<close> (lines 194-207).\<close>

definition GetAttemptsFromContext :: "ctx \<Rightarrow> int" where
  "GetAttemptsFromContext c = (case c Attempts of Some attempts \<Rightarrow> attempts | None \<Rightarrow> 1)"

definition GetRetryFromContext :: "ctx \<Rightarrow> int" where
  "GetRetryFromContext c = (case c Retry of Some retry \<Rightarrow> retry | None \<Rightarrow> 0)"

text \<open>
  What a request does that can be observed from outside, in the order it happens: a
  forwarding attempt to a node, the backend's response relayed to the client, the fixed
  delay before a retry, an HTTP 503 written by the balancer with its body, and a call
  \<open>Heapify(0, true)\<close>.
\<close>

datatype event =
    Forward ref
  | Relayed ref
  | Sleep10ms
  | Http503 string
  | HeapifyRoot

text \<open>
  The state a request runs in: the shared pool, the number of forwarding attempts made so
  far and the events so far. Forwarding itself is outside the program: the oracle
  \<open>up k n\<close> tells whether the forwarding attempt number \<open>k\<close> (counted from 0), made to
  node \<open>n\<close>, gets a response from the backend.
\<close>

record lb =
  pool :: NodePool
  forwards :: nat
  trace :: "event list"

definition emit :: "lb \<Rightarrow> event \<Rightarrow> lb" where
  "emit st e = st\<lparr>trace := trace st @ [e]\<rparr>"

text \<open>
  \<open>loadBalancer\<close> (lines 128-143), the reverse proxy's \<open>ServeHTTP\<close> for the node it is bound
  to, and the node's \<open>ErrorHandler\<close> closure (lines 241-266), which \<open>ServeHTTP\<close> calls when
  the backend does not answer. The three call each other as in the source; each call
  returns to its caller, so the \<open>Heapify(0, true)\<close> of line 138 runs when \<open>ServeHTTP\<close>
  returns, whatever happened inside it.
\<close>

function loadBalancer :: "(nat \<Rightarrow> ref \<Rightarrow> bool) \<Rightarrow> ctx \<Rightarrow> lb \<Rightarrow> lb option"
  and ServeHTTP :: "(nat \<Rightarrow> ref \<Rightarrow> bool) \<Rightarrow> ref \<Rightarrow> ctx \<Rightarrow> lb \<Rightarrow> lb option"
  and ErrorHandler :: "(nat \<Rightarrow> ref \<Rightarrow> bool) \<Rightarrow> ref \<Rightarrow> ctx \<Rightarrow> lb \<Rightarrow> lb option" where
  "loadBalancer up c st =
     (let attempts = GetAttemptsFromContext c
      in if attempts > 3 then Some (emit st (Http503 ''Service not available''))
         else do {
           node \<leftarrow> NextNode (pool st);
           case node of
             Ptr n \<Rightarrow> do {
               st1 \<leftarrow> ServeHTTP up n c st;
               np \<leftarrow> Heapify (pool st1) 0 True;
               Some (emit (st1\<lparr>pool := np\<rparr>) HeapifyRoot) }
           | Null \<Rightarrow> Some (emit st (Http503 ''Downtime: No nodes available''))
         })"
| "ServeHTTP up n c st =
     (let st1 = emit (st\<lparr>forwards := forwards st + 1\<rparr>) (Forward n)
      in if up (forwards st) n then Some (emit st1 (Relayed n))
         else ErrorHandler up n c st1)"
| "ErrorHandler up n c st =
     (let retries = GetRetryFromContext c
      in if retries < 3
         then ServeHTTP up n (c(Retry \<mapsto> retries + 1)) (emit st Sleep10ms)
         else
           (let attempts = GetAttemptsFromContext c;
                c' = c(Attempts \<mapsto> attempts + 1);
                st1 = (if attempts \<ge> 3
                       then st\<lparr>pool := SetNodeStatus (pool st) (URL (heap (pool st) n)) False\<rparr>
                       else st)
            in loadBalancer up c' st1))"
  by pat_completeness auto
termination
proof (relation "measure (\<lambda>x. case x of
          Inl (up, c, st) \<Rightarrow>
            (if GetAttemptsFromContext c > 3 then 0
             else 3 * (nat (3 - GetRetryFromContext c) + 4 * nat (4 - GetAttemptsFromContext c)) + 3)
        | Inr (Inl (up, n, c, st)) \<Rightarrow>
            3 * (nat (3 - GetRetryFromContext c) + 4 * nat (4 - GetAttemptsFromContext c)) + 2
        | Inr (Inr (up, n, c, st)) \<Rightarrow>
            3 * (nat (3 - GetRetryFromContext c) + 4 * nat (4 - GetAttemptsFromContext c)) + 1)",
       goal_cases)
  case 1
  show ?case by simp
next
  case 2
  then show ?case by simp
next
  case 3
  then show ?case by simp
next
  case (4 up n c st x)
  then show ?case
    by (simp add: GetRetryFromContext_def GetAttemptsFromContext_def split: option.splits)
next
  case (5 up n c st x xa xb xc)
  then show ?case
    by (auto simp: GetRetryFromContext_def GetAttemptsFromContext_def nat_diff_distrib
             split: option.splits)
qed

section \<open>The phases of one \<open>Heapify\<close> call\<close>

text \<open>
  Two relations that name the steps of one call, for the proofs below: \<open>demote\<close> is the
  result of the halving, the comparison and, when a child wins, the restoring, the swap
  and the recursive call at the child's index (lines 78-97); \<open>settle\<close> is the result of one
  of the two trailing calls for a child of weight below 1 (lines 99-105). The parameter
  \<open>P\<close> is a property assumed of every recursive call made on the way; \<open>anyhow\<close> assumes
  nothing.
\<close>

definition demote ::
  "(NodePool \<Rightarrow> nat \<Rightarrow> bool \<Rightarrow> NodePool \<Rightarrow> bool) \<Rightarrow> NodePool \<Rightarrow> nat \<Rightarrow> bool \<Rightarrow> NodePool \<Rightarrow> bool" where
  "demote P np idx isRoot np2 =
     (if pick_largest (halve_root np idx isRoot) idx \<noteq> idx
      then \<exists>sw. Swap (restore_root (halve_root np idx isRoot) idx isRoot)
                   (pick_largest (halve_root np idx isRoot) idx) idx = Some sw
             \<and> Heapify sw (pick_largest (halve_root np idx isRoot) idx) False = Some np2
             \<and> P sw (pick_largest (halve_root np idx isRoot) idx) False np2
      else np2 = halve_root np idx isRoot)"

definition settle ::
  "(NodePool \<Rightarrow> nat \<Rightarrow> bool \<Rightarrow> NodePool \<Rightarrow> bool) \<Rightarrow> NodePool \<Rightarrow> nat \<Rightarrow> NodePool \<Rightarrow> bool" where
  "settle P np c np' =
     (if c < length (nodes np) \<and> getWeight np (nodes np ! c) < 1
      then Heapify np c False = Some np' \<and> P np c False np' else np' = np)"

definition anyhow :: "NodePool \<Rightarrow> nat \<Rightarrow> bool \<Rightarrow> NodePool \<Rightarrow> bool" where
  "anyhow np idx isRoot np' = True"

section \<open>Heap order\<close>

text \<open>
  The slice is read as a binary tree: position \<open>j\<close> has its children at \<open>2 * j + 1\<close> and
  \<open>2 * j + 2\<close>, and \<open>desc i j\<close> says that position \<open>j\<close> lies in the subtree whose root is
  position \<open>i\<close>. A position \<open>dominates\<close> when the weight there is at least the weight of
  each of its children that is in bounds and active, whether or not the node at the
  position is active itself. The \<open>heap_property\<close> asks that of the positions holding an
  active node only. \<open>ordered_below np idx\<close> says that every position of the subtree of
  \<open>idx\<close> other than \<open>idx\<close> dominates.
\<close>

fun desc :: "nat \<Rightarrow> nat \<Rightarrow> bool" where
  "desc i j = (if j \<le> i then j = i else desc i ((j - 1) div 2))"

definition dominates :: "NodePool \<Rightarrow> nat \<Rightarrow> bool" where
  "dominates np j =
     ((2 * j + 1 < length (nodes np) \<and> isActive np (nodes np ! (2 * j + 1))
         \<longrightarrow> getWeight np (nodes np ! (2 * j + 1)) \<le> getWeight np (nodes np ! j))
    \<and> (2 * j + 2 < length (nodes np) \<and> isActive np (nodes np ! (2 * j + 2))
         \<longrightarrow> getWeight np (nodes np ! (2 * j + 2)) \<le> getWeight np (nodes np ! j)))"

definition heap_property :: "NodePool \<Rightarrow> bool" where
  "heap_property np =
     list_all (\<lambda>j. isActive np (nodes np ! j) \<longrightarrow> dominates np j) [0..<length (nodes np)]"

definition ordered_below :: "NodePool \<Rightarrow> nat \<Rightarrow> bool" where
  "ordered_below np idx = (\<forall>j. desc idx j \<and> j \<noteq> idx \<longrightarrow> dominates np j)"

text \<open>
  The repairs of \<open>N\<close> requests served one after the other with nothing else touching the
  pool in between: \<open>N\<close> calls \<open>Heapify(0, true)\<close>.
\<close>

fun root_repairs :: "nat \<Rightarrow> NodePool \<Rightarrow> NodePool option" where
  "root_repairs 0 np = Some np"
| "root_repairs (Suc k) np = Heapify np 0 True \<bind> root_repairs k"

section \<open>Example pools\<close>

text \<open>
  The pool of three nodes as \<open>main\<close> builds it, and a pool of two active nodes in which
  the child is heavier than the root.
\<close>

definition pool3 :: NodePool where
  "pool3 = startup [''http://a'', ''http://b'', ''http://c'']"

definition pool1 :: NodePool where
  "pool1 = startup [''http://a'']"

definition pool2 :: NodePool where
  "pool2 = startup [''http://a'', ''http://b'']"

text \<open>
  The state in which a new request starts on a pool; its context is \<open>Map.empty\<close>, which
  holds neither an attempts nor a retry value. Two backends: one that never answers and
  one that always does.
\<close>

definition fresh :: "NodePool \<Rightarrow> lb" where
  "fresh np = \<lparr>pool = np, forwards = 0, trace = []\<rparr>"

definition never_up :: "nat \<Rightarrow> ref \<Rightarrow> bool" where
  "never_up k n = False"

definition always_up :: "nat \<Rightarrow> ref \<Rightarrow> bool" where
  "always_up k n = True"

text \<open>A backend that answers from the fourth forwarding attempt on.\<close>

definition answers_fourth :: "nat \<Rightarrow> ref \<Rightarrow> bool" where
  "answers_fourth k n = (3 \<le> k)"

definition light_root :: NodePool where
  "light_root =
     \<lparr>nodes = [0, 1],
      heap = (\<lambda>n. \<lparr>URL = (if n = 0 then ''http://a'' else ''http://b''), Active = True,
                    weight = (if n = 0 then 1 / 2 else 1)\<rparr>)\<rparr>"


definition b_down :: "nat \<Rightarrow> ref \<Rightarrow> bool" where
  "b_down i n = (n \<noteq> 1)"

definition a_down :: "nat \<Rightarrow> ref \<Rightarrow> bool" where
  "a_down i n = (n \<noteq> 0)"

text \<open>
  A pool of four nodes in heap order as far as active nodes go: the active root of weight
  1/2 has an inactive left child of weight 1/4, under which sits an active node of
  weight 1.
\<close>

definition shadowed :: NodePool where
  "shadowed =
     \<lparr>nodes = [0, 1, 2, 3],
      heap = (\<lambda>n. \<lparr>URL = [], Active = (n \<noteq> 1),
                    weight = (if n = 0 then 1 / 2 else if n = 3 then 1 else 1 / 4)\<rparr>)\<rparr>"

definition c_down :: "nat \<Rightarrow> ref \<Rightarrow> bool" where
  "c_down i n = (n \<noteq> 2)"

definition only_a_up :: "nat \<Rightarrow> ref \<Rightarrow> bool" where
  "only_a_up i n = (n = 0)"

section \<open>Termination of \<open>Heapify\<close>\<close>

lemma pick_largest_cases:
  "pick_largest np idx = idx \<or> pick_largest np idx = 2 * idx + 1
     \<or> pick_largest np idx = 2 * idx + 2"
  by (simp add: pick_largest_def Let_def)

lemma pick_largest_ge: "idx \<le> pick_largest np idx"
  using pick_largest_cases [of np idx] by arith

lemma pick_largest_less:
  "pick_largest np idx \<noteq> idx \<Longrightarrow> pick_largest np idx < length (nodes np)"
  by (auto simp: pick_largest_def Let_def split: if_splits)

lemma Swap_length: "Swap np i j = Some np' \<Longrightarrow> length (nodes np') = length (nodes np)"
  by (auto simp: Swap_def split: if_splits)

lemma Swap_Some: "Swap np i j = Some np' \<Longrightarrow> i < length (nodes np) \<and> j < length (nodes np)"
  by (auto simp: Swap_def split: if_splits)

lemma scale_weight_nodes [simp]: "nodes (scale_weight np n f) = nodes np"
  by (simp add: scale_weight_def)

lemma halve_root_nodes [simp]: "nodes (halve_root np idx isRoot) = nodes np"
  by (simp add: halve_root_def)

lemma restore_root_nodes [simp]: "nodes (restore_root np idx isRoot) = nodes np"
  by (simp add: restore_root_def)

lemma Heapify_psplit:
  assumes "Heapify_dom (np, idx, isRoot)" and "Heapify np idx isRoot = Some np'"
  shows "\<not> (isRoot \<and> length (nodes np) \<le> idx) \<and>
         (\<exists>np2 np3. demote anyhow np idx isRoot np2 \<and> settle anyhow np2 (2 * idx + 1) np3
                     \<and> settle anyhow np3 (2 * idx + 2) np')"
proof -
  have ok: "\<not> (isRoot \<and> length (nodes np) \<le> idx)"
    using assms by (auto simp: Heapify.psimps [OF assms(1)] Let_def)
  from assms(2) ok obtain np2 np3 where
    "(if pick_largest (halve_root np idx isRoot) idx \<noteq> idx
      then Swap (restore_root (halve_root np idx isRoot) idx isRoot)
             (pick_largest (halve_root np idx isRoot) idx) idx
           \<bind> (\<lambda>sw. Heapify sw (pick_largest (halve_root np idx isRoot) idx) False)
      else Some (halve_root np idx isRoot)) = Some np2"
    and "(if 2 * idx + 1 < length (nodes np2) \<and> getWeight np2 (nodes np2 ! (2 * idx + 1)) < 1
          then Heapify np2 (2 * idx + 1) False else Some np2) = Some np3"
    and "(if 2 * idx + 2 < length (nodes np3) \<and> getWeight np3 (nodes np3 ! (2 * idx + 2)) < 1
          then Heapify np3 (2 * idx + 2) False else Some np3) = Some np'"
    unfolding Heapify.psimps [OF assms(1)] Let_def if_not_P [OF ok] bind_eq_Some_conv
    by blast
  then have "demote anyhow np idx isRoot np2" "settle anyhow np2 (2 * idx + 1) np3"
    "settle anyhow np3 (2 * idx + 2) np'"
    by (auto simp: demote_def settle_def anyhow_def bind_eq_Some_conv split: if_splits)
  with ok show ?thesis by blast
qed

lemma Heapify_dom_length:
  "Heapify_dom (np, idx, isRoot) \<Longrightarrow> Heapify np idx isRoot = Some np'
     \<Longrightarrow> length (nodes np') = length (nodes np)"
proof (induction np idx isRoot arbitrary: np' rule: Heapify.pinduct)
  case (1 np idx isRoot)
  let ?l = "pick_largest (halve_root np idx isRoot) idx"
  from Heapify_psplit [OF "1.hyps" "1.prems"] obtain np2 np3 where
    ok: "\<not> (isRoot \<and> length (nodes np) \<le> idx)"
    and d: "demote anyhow np idx isRoot np2"
    and s1: "settle anyhow np2 (2 * idx + 1) np3"
    and s2: "settle anyhow np3 (2 * idx + 2) np'"
    by blast
  have l2: "length (nodes np2) = length (nodes np)"
  proof (cases "?l = idx")
    case True
    with d show ?thesis by (simp add: demote_def)
  next
    case False
    with d obtain sw where sw: "Swap (restore_root (halve_root np idx isRoot) idx isRoot) ?l idx = Some sw"
      and h: "Heapify sw ?l False = Some np2"
      by (auto simp: demote_def)
    have "length (nodes np2) = length (nodes sw)"
      using "1.IH"(1) [OF refl refl ok refl refl False sw h] .
    also have "\<dots> = length (nodes np)"
      using Swap_length [OF sw] by simp
    finally show ?thesis .
  qed
  have d': "(if ?l \<noteq> idx
             then Swap (restore_root (halve_root np idx isRoot) idx isRoot) ?l idx
                    \<bind> (\<lambda>sw. Heapify sw ?l False)
             else Some (halve_root np idx isRoot)) = Some np2"
    using d by (auto simp: demote_def bind_eq_Some_conv split: if_splits)
  have l3: "length (nodes np3) = length (nodes np2)"
  proof (cases "2 * idx + 1 < length (nodes np2) \<and> getWeight np2 (nodes np2 ! (2 * idx + 1)) < 1")
    case True
    with s1 have h: "Heapify np2 (2 * idx + 1) False = Some np3" by (simp add: settle_def)
    show ?thesis using "1.IH"(2) [OF refl refl ok refl refl d' True h] .
  next
    case False
    with s1 show ?thesis by (auto simp: settle_def)
  qed
  have s1': "(if 2 * idx + 1 < length (nodes np2) \<and> getWeight np2 (nodes np2 ! (2 * idx + 1)) < 1
              then Heapify np2 (2 * idx + 1) False else Some np2) = Some np3"
    using s1 by (auto simp: settle_def split: if_splits)
  have l4: "length (nodes np') = length (nodes np3)"
  proof (cases "2 * idx + 2 < length (nodes np3) \<and> getWeight np3 (nodes np3 ! (2 * idx + 2)) < 1")
    case True
    with s2 have h: "Heapify np3 (2 * idx + 2) False = Some np'" by (simp add: settle_def)
    show ?thesis using "1.IH"(3) [OF refl refl ok refl refl d' s1' True h] .
  next
    case False
    with s2 show ?thesis by (auto simp: settle_def)
  qed
  from l2 l3 l4 show ?case by simp
qed

lemma Heapify_dom_all: "All Heapify_dom"
proof (relation "measure (\<lambda>(np, idx, isRoot). length (nodes np) - idx)", goal_cases)
  case 1
  show ?case by simp
next
  case (2 np idx isRoot x xa xb xc a)
  have "xc < length (nodes np)" "length (nodes a) = length (nodes np)"
    using Swap_Some [OF 2(7)] Swap_length [OF 2(7)] 2(4) by simp_all
  moreover have "idx < xc"
    using pick_largest_ge [of idx xb] 2(5,6) by simp
  ultimately show ?case by simp
next
  case (3 np idx isRoot x xa xb xc a)
  have len: "length (nodes a) = length (nodes np)"
  proof (cases "xc = idx")
    case True
    with 3(6,4) show ?thesis by auto
  next
    case False
    with 3(6) obtain sw where sw: "Swap (restore_root xb idx isRoot) xc idx = Some sw"
      and h: "Heapify sw xc False = Some a"
      by (auto simp: bind_eq_Some_conv)
    from 3(8) [OF False sw] have "Heapify_dom (sw, xc, False)" .
    from Heapify_dom_length [OF this h] Swap_length [OF sw] 3(4) show ?thesis
      by simp
  qed
  with 3(1,7) show ?case by auto
next
  case (4 np idx isRoot x xa xb xc a aa)
  have len: "length (nodes a) = length (nodes np)"
  proof (cases "xc = idx")
    case True
    with 4(6,4) show ?thesis by auto
  next
    case False
    with 4(6) obtain sw where sw: "Swap (restore_root xb idx isRoot) xc idx = Some sw"
      and h: "Heapify sw xc False = Some a"
      by (auto simp: bind_eq_Some_conv)
    from 4(10) [OF False sw] have "Heapify_dom (sw, xc, False)" .
    from Heapify_dom_length [OF this h] Swap_length [OF sw] 4(4) show ?thesis
      by simp
  qed
  have len2: "length (nodes aa) = length (nodes a)"
  proof (cases "x < length (nodes a) \<and> getWeight a (nodes a ! x) < 1")
    case True
    with 4(7) have h: "Heapify a x False = Some aa" by simp
    from Heapify_dom_length [OF 4(9) [OF True] h] show ?thesis .
  next
    case False
    with 4(7) show ?thesis by auto
  qed
  with len 4(2,8) show ?case by auto
qed

termination Heapify
  using Heapify_dom_all by simp

declare Heapify.simps [simp del]

section \<open>Reasoning about a call from the calls it makes\<close>

lemma Heapify_length:
  "Heapify np idx isRoot = Some np' \<Longrightarrow> length (nodes np') = length (nodes np)"
  using Heapify_dom_length Heapify_dom_all by blast

lemma Heapify_split:
  assumes "Heapify np idx isRoot = Some np'"
  shows "\<not> (isRoot \<and> length (nodes np) \<le> idx) \<and>
         (\<exists>np2 np3. demote anyhow np idx isRoot np2 \<and> settle anyhow np2 (2 * idx + 1) np3
                     \<and> settle anyhow np3 (2 * idx + 2) np')"
  using Heapify_psplit [OF _ assms] Heapify_dom_all by blast

lemma Heapify_result_induct [consumes 1, case_names call]:
  assumes res: "Heapify np idx isRoot = Some np'"
    and call: "\<And>np idx isRoot np' np2 np3.
      \<not> (isRoot \<and> length (nodes np) \<le> idx) \<Longrightarrow>
      demote P np idx isRoot np2 \<Longrightarrow>
      settle P np2 (2 * idx + 1) np3 \<Longrightarrow>
      settle P np3 (2 * idx + 2) np' \<Longrightarrow> P np idx isRoot np'"
  shows "P np idx isRoot np'"
  using res
proof (induction "length (nodes np) - idx" arbitrary: np idx isRoot np' rule: less_induct)
  case less
  from Heapify_split [OF less.prems] obtain np2 np3 where
    ok: "\<not> (isRoot \<and> length (nodes np) \<le> idx)"
    and d: "demote anyhow np idx isRoot np2"
    and s1: "settle anyhow np2 (2 * idx + 1) np3"
    and s2: "settle anyhow np3 (2 * idx + 2) np'"
    by blast
  let ?l = "pick_largest (halve_root np idx isRoot) idx"
  have l2: "length (nodes np2) = length (nodes np)"
  proof (cases "?l = idx")
    case True
    with d show ?thesis by (simp add: demote_def)
  next
    case False
    with d obtain sw where "Swap (restore_root (halve_root np idx isRoot) idx isRoot) ?l idx = Some sw"
      and "Heapify sw ?l False = Some np2"
      by (auto simp: demote_def)
    then show ?thesis using Swap_length Heapify_length by fastforce
  qed
  have l3: "length (nodes np3) = length (nodes np)"
    using s1 l2 Heapify_length by (fastforce simp: settle_def split: if_splits)
  have d': "demote P np idx isRoot np2"
  proof (cases "?l = idx")
    case True
    with d show ?thesis by (simp add: demote_def)
  next
    case False
    with d obtain sw where sw: "Swap (restore_root (halve_root np idx isRoot) idx isRoot) ?l idx = Some sw"
      and h: "Heapify sw ?l False = Some np2"
      by (auto simp: demote_def)
    have "?l < length (nodes np)" "length (nodes sw) = length (nodes np)"
      using Swap_Some [OF sw] Swap_length [OF sw] by simp_all
    moreover have "idx < ?l" using pick_largest_ge [of idx "halve_root np idx isRoot"] False by simp
    ultimately have "length (nodes sw) - ?l < length (nodes np) - idx" by simp
    from less.hyps [OF this h] have "P sw ?l False np2" .
    with sw h False show ?thesis by (auto simp: demote_def)
  qed
  have s1': "settle P np2 (2 * idx + 1) np3"
  proof (cases "2 * idx + 1 < length (nodes np2) \<and> getWeight np2 (nodes np2 ! (2 * idx + 1)) < 1")
    case True
    with s1 have h: "Heapify np2 (2 * idx + 1) False = Some np3" by (simp add: settle_def)
    have "length (nodes np2) - (2 * idx + 1) < length (nodes np) - idx"
      using True l2 by auto
    from less.hyps [OF this h] True h show ?thesis by (simp add: settle_def)
  next
    case False
    with s1 show ?thesis by (auto simp: settle_def)
  qed
  have s2': "settle P np3 (2 * idx + 2) np'"
  proof (cases "2 * idx + 2 < length (nodes np3) \<and> getWeight np3 (nodes np3 ! (2 * idx + 2)) < 1")
    case True
    with s2 have h: "Heapify np3 (2 * idx + 2) False = Some np'" by (simp add: settle_def)
    have "length (nodes np3) - (2 * idx + 2) < length (nodes np) - idx"
      using True l3 by auto
    from less.hyps [OF this h] True h show ?thesis by (simp add: settle_def)
  next
    case False
    with s2 show ?thesis by (auto simp: settle_def)
  qed
  from call [OF ok d' s1' s2'] show ?case .
qed

lemma Heapify_Some:
  "\<not> (isRoot \<and> length (nodes np) \<le> idx) \<Longrightarrow> \<exists>np'. Heapify np idx isRoot = Some np'"
proof (induction "length (nodes np) - idx" arbitrary: np idx isRoot rule: less_induct)
  case less
  note ok = less.prems
  let ?np1 = "halve_root np idx isRoot"
  let ?l = "pick_largest ?np1 idx"
  have "\<exists>np2. (if ?l \<noteq> idx then Swap (restore_root ?np1 idx isRoot) ?l idx \<bind> (\<lambda>sw. Heapify sw ?l False)
               else Some ?np1) = Some np2 \<and> length (nodes np2) = length (nodes np)"
  proof (cases "?l = idx")
    case True
    then show ?thesis by simp
  next
    case False
    have lt: "idx < ?l" using pick_largest_ge [of idx ?np1] False by simp
    have ll: "?l < length (nodes np)" using pick_largest_less [OF False] by simp
    then obtain sw where sw: "Swap (restore_root ?np1 idx isRoot) ?l idx = Some sw"
      using lt by (auto simp: Swap_def)
    have len: "length (nodes sw) = length (nodes np)"
      using Swap_length [OF sw] by simp
    have "length (nodes sw) - ?l < length (nodes np) - idx"
      using lt ll len by simp
    from less.hyps [OF this] obtain np2 where h: "Heapify sw ?l False = Some np2"
      by auto
    with sw False Heapify_length [OF h] len show ?thesis by simp
  qed
  then obtain np2 where
    d: "(if ?l \<noteq> idx then Swap (restore_root ?np1 idx isRoot) ?l idx \<bind> (\<lambda>sw. Heapify sw ?l False)
         else Some ?np1) = Some np2"
    and l2: "length (nodes np2) = length (nodes np)" by blast
  have "\<exists>np3. (if 2 * idx + 1 < length (nodes np2) \<and> getWeight np2 (nodes np2 ! (2 * idx + 1)) < 1
               then Heapify np2 (2 * idx + 1) False else Some np2) = Some np3
             \<and> length (nodes np3) = length (nodes np)"
  proof (cases "2 * idx + 1 < length (nodes np2) \<and> getWeight np2 (nodes np2 ! (2 * idx + 1)) < 1")
    case True
    then have "length (nodes np2) - (2 * idx + 1) < length (nodes np) - idx"
      using l2 by auto
    from less.hyps [OF this] obtain np3 where h: "Heapify np2 (2 * idx + 1) False = Some np3"
      by auto
    with True Heapify_length [OF h] l2 show ?thesis by simp
  next
    case False
    with l2 show ?thesis by auto
  qed
  then obtain np3 where
    s1: "(if 2 * idx + 1 < length (nodes np2) \<and> getWeight np2 (nodes np2 ! (2 * idx + 1)) < 1
          then Heapify np2 (2 * idx + 1) False else Some np2) = Some np3"
    and l3: "length (nodes np3) = length (nodes np)" by blast
  have "\<exists>np4. (if 2 * idx + 2 < length (nodes np3) \<and> getWeight np3 (nodes np3 ! (2 * idx + 2)) < 1
               then Heapify np3 (2 * idx + 2) False else Some np3) = Some np4"
  proof (cases "2 * idx + 2 < length (nodes np3) \<and> getWeight np3 (nodes np3 ! (2 * idx + 2)) < 1")
    case True
    then have "length (nodes np3) - (2 * idx + 2) < length (nodes np) - idx"
      using l3 by auto
    from less.hyps [OF this] obtain np4 where h: "Heapify np3 (2 * idx + 2) False = Some np4"
      by auto
    with True show ?thesis by simp
  next
    case False
    then show ?thesis by auto
  qed
  then obtain np4 where
    s2: "(if 2 * idx + 2 < length (nodes np3) \<and> getWeight np3 (nodes np3 ! (2 * idx + 2)) < 1
          then Heapify np3 (2 * idx + 2) False else Some np3) = Some np4" by blast
  have "Heapify np idx isRoot = Some np4"
    unfolding Heapify.simps [of np idx isRoot] Let_def if_not_P [OF ok]
    using d s1 s2 by simp
  then show ?case by blast
qed

lemma Heapify_None_iff:
  "Heapify np idx isRoot = None \<longleftrightarrow> isRoot \<and> length (nodes np) \<le> idx"
proof
  assume "Heapify np idx isRoot = None"
  with Heapify_Some [of isRoot np idx] show "isRoot \<and> length (nodes np) \<le> idx" by auto
next
  assume "isRoot \<and> length (nodes np) \<le> idx"
  then show "Heapify np idx isRoot = None" by (simp add: Heapify.simps)
qed

lemma Swap_mset: "Swap np i j = Some np' \<Longrightarrow> mset (nodes np') = mset (nodes np)"
  by (auto simp: Swap_def mset_swap split: if_splits)

lemma Swap_heap: "Swap np i j = Some np' \<Longrightarrow> heap np' = heap np"
  by (auto simp: Swap_def split: if_splits)

lemma Heapify_mset:
  "Heapify np idx isRoot = Some np' \<Longrightarrow> mset (nodes np') = mset (nodes np)"
proof (induction rule: Heapify_result_induct)
  case (call np idx isRoot np' np2 np3)
  have "mset (nodes np2) = mset (nodes np)"
    using call(2) Swap_mset by (fastforce simp: demote_def split: if_splits)
  moreover have "mset (nodes np3) = mset (nodes np2)"
    using call(3) by (auto simp: settle_def split: if_splits)
  moreover have "mset (nodes np') = mset (nodes np3)"
    using call(4) by (auto simp: settle_def split: if_splits)
  ultimately show ?case by simp
qed

lemma restore_halve_heap [simp]:
  "heap (restore_root (halve_root np idx isRoot) idx isRoot) = heap np"
  by (auto simp: restore_root_def halve_root_def scale_weight_def)

lemma Heapify_heap:
  "Heapify np idx isRoot = Some np' \<Longrightarrow>
     heap np' = (if pick_largest (halve_root np idx isRoot) idx = idx
                 then heap (halve_root np idx isRoot) else heap np)"
proof (induction rule: Heapify_result_induct)
  case (call np idx isRoot np' np2 np3)
  have h: "halve_root sw l False = sw" for sw l by (simp add: halve_root_def)
  have "heap np2 = (if pick_largest (halve_root np idx isRoot) idx = idx
                    then heap (halve_root np idx isRoot) else heap np)"
    using call(2) Swap_heap by (fastforce simp: demote_def h split: if_splits)
  moreover have "heap np3 = heap np2"
    using call(3) by (auto simp: settle_def h split: if_splits)
  moreover have "heap np' = heap np3"
    using call(4) by (auto simp: settle_def h split: if_splits)
  ultimately show ?case by simp
qed

lemma pool3_nodes: "nodes pool3 = [0, 1, 2]"
  by (simp add: pool3_def startup_def AddNode_def Let_def)

section \<open>Subtrees\<close>

declare desc.simps [simp del]

lemma desc_refl [simp]: "desc i i"
  by (simp add: desc.simps)

lemma desc_ge: "desc i j \<Longrightarrow> i \<le> j"
  by (induction i j rule: desc.induct) (subst (asm) desc.simps, auto split: if_splits)

lemma desc_left: "desc i j \<Longrightarrow> desc i (2 * j + 1)"
  using desc_ge [of i j] by (subst desc.simps) auto

lemma desc_right: "desc i j \<Longrightarrow> desc i (2 * j + 2)"
  using desc_ge [of i j] by (subst desc.simps) auto

lemma desc_up_left: "desc (2 * i + 1) j \<Longrightarrow> desc i j"
proof (induction i j rule: desc.induct)
  case (1 i j)
  show ?case
  proof (cases "j \<le> 2 * i + 1")
    case True
    with 1(2) have "j = 2 * i + 1" by (subst (asm) desc.simps) simp
    then show ?thesis using desc_left [OF desc_refl, of i] by simp
  next
    case False
    with 1(2) have "desc (2 * i + 1) ((j - 1) div 2)" by (subst (asm) desc.simps) simp
    with 1(1) False have "desc i ((j - 1) div 2)" by simp
    with False show ?thesis by (subst desc.simps) simp
  qed
qed

lemma desc_up_right: "desc (2 * i + 2) j \<Longrightarrow> desc i j"
proof (induction i j rule: desc.induct)
  case (1 i j)
  show ?case
  proof (cases "j \<le> 2 * i + 2")
    case True
    with 1(2) have "j = 2 * i + 2" by (subst (asm) desc.simps) simp
    then show ?thesis using desc_right [OF desc_refl, of i] by simp
  next
    case False
    with 1(2) have "desc (2 * i + 2) ((j - 1) div 2)" by (subst (asm) desc.simps) simp
    with 1(1) False have "desc i ((j - 1) div 2)" by simp
    with False show ?thesis by (subst desc.simps) simp
  qed
qed

lemma desc_cases: "desc i j \<Longrightarrow> j = i \<or> desc (2 * i + 1) j \<or> desc (2 * i + 2) j"
proof (induction i j rule: desc.induct)
  case (1 i j)
  show ?case
  proof (cases "j \<le> i")
    case True
    with 1(2) show ?thesis by (subst (asm) desc.simps) simp
  next
    case False
    with 1(2) have p: "desc i ((j - 1) div 2)" by (subst (asm) desc.simps) simp
    from 1(1) [OF False p] consider "(j - 1) div 2 = i" | "desc (2 * i + 1) ((j - 1) div 2)"
      | "desc (2 * i + 2) ((j - 1) div 2)" by blast
    then show ?thesis
    proof cases
      case 1
      with False have "j = 2 * i + 1 \<or> j = 2 * i + 2" by presburger
      then show ?thesis by auto
    next
      case 2
      from desc_ge [OF 2] have "2 * i + 1 < j" by presburger
      with 2 have "desc (2 * i + 1) j" by (subst desc.simps) simp
      then show ?thesis by simp
    next
      case 3
      from desc_ge [OF 3] have "2 * i + 2 < j" by presburger
      with 3 have "desc (2 * i + 2) j" by (subst desc.simps) simp
      then show ?thesis by simp
    qed
  qed
qed

lemma desc_disjoint: "desc (2 * i + 1) j \<Longrightarrow> \<not> desc (2 * i + 2) j"
proof (induction j rule: less_induct)
  case (less j)
  show ?case
  proof (cases "j \<le> 2 * i + 2")
    case True
    show ?thesis
    proof
      assume "desc (2 * i + 2) j"
      with True have j: "j = 2 * i + 2" by (subst (asm) desc.simps) simp
      with less.prems have "desc (2 * i + 1) i" by (subst (asm) desc.simps) simp
      from desc_ge [OF this] show False by simp
    qed
  next
    case False
    with less.prems have "desc (2 * i + 1) ((j - 1) div 2)" by (subst (asm) desc.simps) simp
    moreover from False have "(j - 1) div 2 < j" by simp
    ultimately have "\<not> desc (2 * i + 2) ((j - 1) div 2)" using less.IH by blast
    with False show ?thesis by (subst desc.simps) simp
  qed
qed

section \<open>What a call moves and what it leaves\<close>

lemma Swap_nth:
  "Swap np i j = Some np' \<Longrightarrow> k \<noteq> i \<Longrightarrow> k \<noteq> j \<Longrightarrow> nodes np' ! k = nodes np ! k"
  by (auto simp: Swap_def split: if_splits)


lemma Swap_nth_fst: "Swap np i j = Some np' \<Longrightarrow> nodes np' ! j = nodes np ! i"
  by (auto simp: Swap_def split: if_splits)


lemma Swap_nth_snd: "Swap np i j = Some np' \<Longrightarrow> nodes np' ! i = nodes np ! j"
  by (auto simp: Swap_def nth_list_update split: if_splits)


lemma pick_largest_child:
  "pick_largest np idx \<noteq> idx \<Longrightarrow>
     pick_largest np idx = 2 * idx + 1 \<or> pick_largest np idx = 2 * idx + 2"
  using pick_largest_cases [of np idx] by blast


lemma desc_pick_largest: "desc idx (pick_largest np idx)"
  using pick_largest_cases [of np idx] desc_left [OF desc_refl, of idx]
    desc_right [OF desc_refl, of idx] by auto


lemma desc_via_pick_largest: "desc (pick_largest np idx) k \<Longrightarrow> desc idx k"
  using pick_largest_cases [of np idx] desc_up_left [of idx k] desc_up_right [of idx k] by auto


lemma settle_cases:
  assumes "settle P np c np'"
  obtains "Heapify np c False = Some np'" "P np c False np'" | "np' = np"
  using assms by (auto simp: settle_def split: if_splits)

lemma demote_cases:
  assumes "demote P np idx isRoot np2"
  obtains "pick_largest (halve_root np idx isRoot) idx = idx" "np2 = halve_root np idx isRoot"
  | sw where "pick_largest (halve_root np idx isRoot) idx \<noteq> idx"
      "Swap (restore_root (halve_root np idx isRoot) idx isRoot)
         (pick_largest (halve_root np idx isRoot) idx) idx = Some sw"
      "Heapify sw (pick_largest (halve_root np idx isRoot) idx) False = Some np2"
      "P sw (pick_largest (halve_root np idx isRoot) idx) False np2"
  using assms by (auto simp: demote_def split: if_splits)

lemma Heapify_frame:
  "Heapify np idx isRoot = Some np' \<Longrightarrow> \<not> desc idx k \<Longrightarrow> nodes np' ! k = nodes np ! k"
proof (induction arbitrary: k rule: Heapify_result_induct)
  case (call np idx isRoot np' np2 np3)
  let ?l = "pick_largest (halve_root np idx isRoot) idx"
  have nk: "\<not> desc (2 * idx + 1) k" "\<not> desc (2 * idx + 2) k" "k \<noteq> idx"
    using call.prems desc_up_left [of idx k] desc_up_right [of idx k] by auto
  from call(2) have 2: "nodes np2 ! k = nodes np ! k"
  proof (cases rule: demote_cases)
    case 1
    then show ?thesis by simp
  next
    case (2 sw)
    have "\<not> desc ?l k"
      using call.prems desc_via_pick_largest [of "halve_root np idx isRoot" idx k] by blast
    moreover from this have "k \<noteq> ?l" by auto
    ultimately show ?thesis using 2(4) Swap_nth [OF 2(2), of k] nk by simp
  qed
  from call(3) have 3: "nodes np3 ! k = nodes np2 ! k"
  proof (cases rule: settle_cases)
    case 1
    with nk show ?thesis by simp
  next
    case 2
    then show ?thesis by simp
  qed
  from call(4) have 4: "nodes np' ! k = nodes np3 ! k"
  proof (cases rule: settle_cases)
    case 1
    with nk show ?thesis by simp
  next
    case 2
    then show ?thesis by simp
  qed
  from 2 3 4 show ?case by simp
qed

lemma Heapify_top:
  assumes "Heapify np idx isRoot = Some np'"
  shows "nodes np' ! idx = nodes np ! pick_largest (halve_root np idx isRoot) idx"
proof -
  let ?l = "pick_largest (halve_root np idx isRoot) idx"
  from Heapify_split [OF assms] obtain np2 np3 where
    d: "demote anyhow np idx isRoot np2"
    and s1: "settle anyhow np2 (2 * idx + 1) np3"
    and s2: "settle anyhow np3 (2 * idx + 2) np'"
    by blast
  have n1: "\<not> desc (2 * idx + 1) idx" "\<not> desc (2 * idx + 2) idx"
    using desc_ge [of "2 * idx + 1" idx] desc_ge [of "2 * idx + 2" idx] by auto
  have 2: "nodes np2 ! idx = nodes np ! ?l"
  proof (cases "?l = idx")
    case True
    with d show ?thesis by (simp add: demote_def)
  next
    case False
    with d obtain sw where
      sw: "Swap (restore_root (halve_root np idx isRoot) idx isRoot) ?l idx = Some sw"
      and h: "Heapify sw ?l False = Some np2"
      by (auto simp: demote_def)
    have "idx < ?l" using pick_largest_ge [of idx "halve_root np idx isRoot"] False by simp
    then have "\<not> desc ?l idx" using desc_ge [of ?l idx] by auto
    from Heapify_frame [OF h this] Swap_nth_fst [OF sw] show ?thesis by simp
  qed
  have 3: "nodes np3 ! idx = nodes np2 ! idx"
    using s1 n1 by (auto simp: settle_def Heapify_frame split: if_splits)
  have 4: "nodes np' ! idx = nodes np3 ! idx"
    using s2 n1 by (auto simp: settle_def Heapify_frame split: if_splits)
  from 2 3 4 show ?thesis by simp
qed


lemma pick_largest_dominates: "pick_largest np idx = idx \<longleftrightarrow> dominates np idx"
  by (auto simp: pick_largest_def dominates_def Let_def)


lemma pick_largest_wins:
  assumes "pick_largest np idx \<noteq> idx"
  shows "isActive np (nodes np ! pick_largest np idx)"
    and "getWeight np (nodes np ! idx) < getWeight np (nodes np ! pick_largest np idx)"
    and "2 * idx + 1 < length (nodes np) \<and> isActive np (nodes np ! (2 * idx + 1)) \<longrightarrow>
           getWeight np (nodes np ! (2 * idx + 1)) \<le> getWeight np (nodes np ! pick_largest np idx)"
    and "2 * idx + 2 < length (nodes np) \<and> isActive np (nodes np ! (2 * idx + 2)) \<longrightarrow>
           getWeight np (nodes np ! (2 * idx + 2)) \<le> getWeight np (nodes np ! pick_largest np idx)"
  using assms by (auto simp: pick_largest_def Let_def split: if_splits)


lemma halve_root_False [simp]: "halve_root np idx False = np"
  by (simp add: halve_root_def)


lemma restore_root_False [simp]: "restore_root np idx False = np"
  by (simp add: restore_root_def)


lemma Heapify_ordered_id:
  "(\<And>j. desc idx j \<Longrightarrow> dominates np j) \<Longrightarrow> Heapify np idx False = Some np"
proof (induction "length (nodes np) - idx" arbitrary: idx rule: less_induct)
  case less
  have l: "pick_largest np idx = idx"
    using less.prems [OF desc_refl] by (simp add: pick_largest_dominates)
  have 1: "Heapify np (2 * idx + 1) False = Some np" if "2 * idx + 1 < length (nodes np)"
  proof (rule less.hyps)
    show "length (nodes np) - (2 * idx + 1) < length (nodes np) - idx" using that by simp
    show "dominates np j" if "desc (2 * idx + 1) j" for j
      using less.prems [OF desc_up_left [OF that]] .
  qed
  have 2: "Heapify np (2 * idx + 2) False = Some np" if "2 * idx + 2 < length (nodes np)"
  proof (rule less.hyps)
    show "length (nodes np) - (2 * idx + 2) < length (nodes np) - idx" using that by simp
    show "dominates np j" if "desc (2 * idx + 2) j" for j
      using less.prems [OF desc_up_right [OF that]] .
  qed
  show ?case
    unfolding Heapify.simps [of np idx False] using l 1 2 by (simp add: Let_def)
qed

lemma restore_halve [simp]: "restore_root (halve_root np idx isRoot) idx isRoot = np"
  by (cases isRoot) (simp_all add: restore_root_def halve_root_def scale_weight_def)

lemma Swap_distinct: "Swap np i j = Some np' \<Longrightarrow> distinct (nodes np') = distinct (nodes np)"
  using Swap_mset [of np i j np'] by (metis mset_eq_imp_distinct_iff)

lemma dominates_cong:
  assumes "length (nodes a) = length (nodes b)" and "heap a = heap b"
    and "nodes a ! j = nodes b ! j"
    and "nodes a ! (2 * j + 1) = nodes b ! (2 * j + 1)"
    and "nodes a ! (2 * j + 2) = nodes b ! (2 * j + 2)"
  shows "dominates a j = dominates b j"
  using assms by (simp add: dominates_def isActive_def getWeight_def)

lemma dominates_scale_weight:
  assumes "distinct (nodes np)" and "idx < length (nodes np)" and "idx < j"
  shows "dominates (scale_weight np (nodes np ! idx) f) j = dominates np j"
proof -
  have ne: "nodes np ! p \<noteq> nodes np ! idx" if "p < length (nodes np)" "idx < p" for p
    using that assms(1,2) by (simp add: nth_eq_iff_index_eq)
  have w: "getWeight (scale_weight np (nodes np ! idx) f) (nodes np ! p) = getWeight np (nodes np ! p)"
    "isActive (scale_weight np (nodes np ! idx) f) (nodes np ! p) = isActive np (nodes np ! p)"
    if "p < length (nodes np)" "idx < p" for p
    using ne [OF that] by (simp_all add: getWeight_def isActive_def scale_weight_def)
  show ?thesis
  proof (cases "2 * j + 1 < length (nodes np)")
    case False
    then show ?thesis by (simp add: dominates_def)
  next
    case True
    then have j: "j < length (nodes np)" by simp
    show ?thesis
    proof (cases "2 * j + 2 < length (nodes np)")
      case True
      with j assms(3) show ?thesis
        using w [of j] w [of "2 * j + 1"] w [of "2 * j + 2"] by (simp add: dominates_def)
    next
      case False
      with j assms(3) \<open>2 * j + 1 < length (nodes np)\<close> show ?thesis
        using w [of j] w [of "2 * j + 1"] by (simp add: dominates_def)
    qed
  qed
qed

lemma dominates_halve_root:
  assumes "distinct (nodes np)" and "\<not> (isRoot \<and> length (nodes np) \<le> idx)" and "idx < j"
  shows "dominates (halve_root np idx isRoot) j = dominates np j"
  using assms dominates_scale_weight [of np idx j] by (auto simp: halve_root_def)

lemma Heapify_False_heap: "Heapify np idx False = Some np' \<Longrightarrow> heap np' = heap np"
  using Heapify_heap [of np idx False np'] by simp

lemma settle_ordered:
  assumes "settle P np c np'" and "\<And>j. desc c j \<Longrightarrow> dominates np j"
  shows "np' = np"
  using assms(1)
proof (cases rule: settle_cases)
  case 1
  with Heapify_ordered_id [of c np] assms(2) show ?thesis by simp
next
  case 2
  then show ?thesis .
qed

section \<open>Order after a call\<close>

lemma ordered_belowD: "ordered_below np idx \<Longrightarrow> desc idx j \<Longrightarrow> j \<noteq> idx \<Longrightarrow> dominates np j"
  by (simp add: ordered_below_def)

lemma ordered_below_child:
  assumes "ordered_below np idx" and "c = 2 * idx + 1 \<or> c = 2 * idx + 2" and "desc c j"
  shows "dominates np j"
proof -
  from assms(2,3) have "desc idx j" using desc_up_left [of idx j] desc_up_right [of idx j] by auto
  moreover from assms(2) desc_ge [OF assms(3)] have "j \<noteq> idx" by auto
  ultimately show ?thesis using assms(1) by (simp add: ordered_below_def)
qed

lemma Heapify_order:
  assumes "Heapify np idx isRoot = Some np'"
    and "distinct (nodes np)"
    and "ordered_below np idx"
  shows "ordered_below np' idx
       \<and> (\<not> isRoot \<longrightarrow> dominates np' idx)
       \<and> (nodes np' ! idx = nodes np ! idx \<longrightarrow> dominates np' idx)"
  using assms
proof (induction rule: Heapify_result_induct)
  case (call np idx isRoot np' np2 np3)
  let ?np1 = "halve_root np idx isRoot"
  let ?l = "pick_largest ?np1 idx"
  note ok = call(1) and dist = call(5) and pre = call(6)
  from call(2) show ?case
  proof (cases rule: demote_cases)
    case 1
    have dom1: "dominates ?np1 j" if "desc idx j" for j
    proof (cases "j = idx")
      case True
      with 1(1) show ?thesis by (simp add: pick_largest_dominates)
    next
      case False
      with desc_ge [OF that] have "idx < j" by simp
      from dominates_halve_root [OF dist ok this] ordered_belowD [OF pre that False]
      show ?thesis by simp
    qed
    have d1: "dominates np2 j" if "desc (2 * idx + 1) j" for j
      using dom1 [OF desc_up_left [OF that]] 1(2) by simp
    from settle_ordered [OF call(3) d1] have e3: "np3 = np2" by simp
    have d2: "dominates np3 j" if "desc (2 * idx + 2) j" for j
      using dom1 [OF desc_up_right [OF that]] 1(2) e3 by simp
    from settle_ordered [OF call(4) d2] have e4: "np' = np3" by simp
    from e3 e4 1(2) have e: "np' = ?np1" by simp
    have "dominates np' idx" unfolding e using dom1 [OF desc_refl] .
    moreover have "ordered_below np' idx" unfolding e ordered_below_def using dom1 by blast
    ultimately show ?thesis by blast
  next
    case (2 sw)
    have sw: "Swap np ?l idx = Some sw" using 2(2) by simp
    have lc: "?l = 2 * idx + 1 \<or> ?l = 2 * idx + 2" using pick_largest_child [OF 2(1)] .
    then have lt: "idx < ?l" by auto
    have ll: "?l < length (nodes np)" using Swap_Some [OF sw] by simp
    have len_sw: "length (nodes sw) = length (nodes np)" using Swap_length [OF sw] .
    have heap_sw: "heap sw = heap np" using Swap_heap [OF sw] .
    have nth_sw: "nodes sw ! p = nodes np ! p" if "?l < p" for p
      using Swap_nth [OF sw, of p] that lt by simp
    have dist_sw: "distinct (nodes sw)" using Swap_distinct [OF sw] dist by simp
    have pre_sw: "ordered_below sw ?l"
      unfolding ordered_below_def
    proof (intro allI impI)
      fix j assume j: "desc ?l j \<and> j \<noteq> ?l"
      with desc_ge [of ?l j] have lj: "?l < j" by auto
      have "dominates sw j = dominates np j"
        using dominates_cong [OF len_sw heap_sw nth_sw nth_sw nth_sw, of j] lj by simp
      moreover have "dominates np j"
        using ordered_below_child [OF pre lc] j by simp
      ultimately show "dominates sw j" by simp
    qed
    from 2(4) dist_sw pre_sw have post_sw: "ordered_below np2 ?l" "dominates np2 ?l"
      by simp_all
    have heap2: "heap np2 = heap np" using Heapify_False_heap [OF 2(3)] heap_sw by simp
    have len2: "length (nodes np2) = length (nodes np)" using Heapify_length [OF 2(3)] len_sw by simp
    have nth2: "nodes np2 ! p = nodes np ! p" if "\<not> desc ?l p" "p \<noteq> idx" for p
    proof -
      from that(1) have "p \<noteq> ?l" by auto
      with Heapify_frame [OF 2(3) that(1)] Swap_nth [OF sw, of p] that(2) show ?thesis by simp
    qed
    have dom_l: "dominates np2 j" if "desc ?l j" for j
      using post_sw that by (cases "j = ?l") (simp_all add: ordered_below_def)
    have other: "dominates np2 j" if m: "m = 2 * idx + 1 \<or> m = 2 * idx + 2" "m \<noteq> ?l" and j: "desc m j" for m j
    proof -
      have nd: "\<not> desc ?l p" if "desc m p" for p
        using that m lc desc_disjoint [of idx p] by auto
      have ni: "p \<noteq> idx" if "desc m p" for p
        using desc_ge [OF that] m by auto
      have c1: "desc m (2 * j + 1)" and c2: "desc m (2 * j + 2)"
        using desc_left [OF j] desc_right [OF j] by simp_all
      have "dominates np2 j = dominates np j"
        using dominates_cong [OF len2 heap2 nth2 [OF nd [OF j] ni [OF j]]
                nth2 [OF nd [OF c1] ni [OF c1]] nth2 [OF nd [OF c2] ni [OF c2]]] .
      moreover have "dominates np j" using ordered_below_child [OF pre m(1) j] .
      ultimately show ?thesis by simp
    qed
    have below: "dominates np2 j" if "desc c j" "c = 2 * idx + 1 \<or> c = 2 * idx + 2" for c j
      using that dom_l [of j] other [of c j] by (cases "c = ?l") auto
    have d1: "dominates np2 j" if "desc (2 * idx + 1) j" for j
      using below [OF that] by simp
    from settle_ordered [OF call(3) d1] have e3: "np3 = np2" by simp
    have d2: "dominates np3 j" if "desc (2 * idx + 2) j" for j
      using below [OF that] e3 by simp
    from settle_ordered [OF call(4) d2] have e4: "np' = np3" by simp
    from e3 e4 have e: "np' = np2" by simp
    have ob: "ordered_below np' idx"
      unfolding ordered_below_def e
    proof (intro allI impI)
      fix j assume "desc idx j \<and> j \<noteq> idx"
      with desc_cases [of idx j] have "desc (2 * idx + 1) j \<or> desc (2 * idx + 2) j" by auto
      then show "dominates np2 j" using below by blast
    qed
    have nd_idx: "\<not> desc ?l idx" using desc_ge [of ?l idx] lt by auto
    have top: "nodes np2 ! idx = nodes np ! ?l"
      using Heapify_frame [OF 2(3) nd_idx] Swap_nth_fst [OF sw] by simp
    have idx_lt: "idx < length (nodes np)" using lt ll by simp
    have moved: "nodes np' ! idx \<noteq> nodes np ! idx"
      using top e dist ll idx_lt lt by (simp add: nth_eq_iff_index_eq)
    have unrooted: "dominates np' idx" if nr: "\<not> isRoot"
    proof -
      from nr have np1: "?np1 = np" by simp
      let ?W = "getWeight np (nodes np ! ?l)"
      have win: "getWeight np (nodes np ! idx) < ?W"
        using pick_largest_wins(2) [OF 2(1)] np1 by simp
      have sib: "2 * idx + 1 < length (nodes np) \<and> isActive np (nodes np ! (2 * idx + 1)) \<longrightarrow>
                   getWeight np (nodes np ! (2 * idx + 1)) \<le> ?W"
        "2 * idx + 2 < length (nodes np) \<and> isActive np (nodes np ! (2 * idx + 2)) \<longrightarrow>
                   getWeight np (nodes np ! (2 * idx + 2)) \<le> ?W"
        using pick_largest_wins(3,4) [OF 2(1)] np1 by simp_all
      have at_l: "isActive np (nodes np2 ! ?l) \<longrightarrow> getWeight np (nodes np2 ! ?l) \<le> ?W"
      proof (cases "pick_largest sw ?l = ?l")
        case True
        with Heapify_top [OF 2(3)] have "nodes np2 ! ?l = nodes sw ! ?l" by simp
        with Swap_nth_snd [OF sw] win show ?thesis by simp
      next
        case False
        let ?q = "pick_largest sw ?l"
        have qc: "?q = 2 * ?l + 1 \<or> ?q = 2 * ?l + 2" using pick_largest_child [OF False] .
        then have lq: "?l < ?q" by auto
        have ql: "?q < length (nodes np)" using pick_largest_less [OF False] len_sw by simp
        have qa: "isActive np (nodes np ! ?q)"
          using pick_largest_wins(1) [OF False] nth_sw [OF lq] heap_sw by (simp add: isActive_def)
        have "dominates np ?l" using ordered_below_child [OF pre lc desc_refl] .
        with qc ql qa have "getWeight np (nodes np ! ?q) \<le> ?W"
          by (auto simp: dominates_def)
        moreover have "nodes np2 ! ?l = nodes np ! ?q"
          using Heapify_top [OF 2(3)] nth_sw [OF lq] by simp
        ultimately show ?thesis by simp
      qed
      have at_m: "isActive np (nodes np2 ! m) \<longrightarrow> getWeight np (nodes np2 ! m) \<le> ?W"
        if m: "m = 2 * idx + 1 \<or> m = 2 * idx + 2" "m < length (nodes np)" for m
      proof (cases "m = ?l")
        case True
        with at_l show ?thesis by simp
      next
        case False
        have "\<not> desc ?l m" using m(1) lc False desc_disjoint [of idx m] desc_refl [of m] by auto
        moreover have "m \<noteq> idx" using m(1) by auto
        ultimately have "nodes np2 ! m = nodes np ! m" using nth2 by simp
        with sib m show ?thesis by auto
      qed
      show ?thesis
        unfolding dominates_def e
        using at_m [of "2 * idx + 1"] at_m [of "2 * idx + 2"] top heap2 len2
        by (simp add: isActive_def getWeight_def)
    qed
    from ob unrooted moved show ?thesis by simp
  qed
qed

lemma desc_zero: "desc 0 j"
  by (induction j rule: less_induct) (subst desc.simps, auto)

lemma dominates_all_heap_property: "(\<And>j. dominates np j) \<Longrightarrow> heap_property np"
  by (simp add: heap_property_def list_all_iff)



section \<open>Dispatch returns\<close>

declare loadBalancer.simps [simp del] ServeHTTP.simps [simp del] ErrorHandler.simps [simp del]
declare HealthCheck_loop.simps [simp del]



lemma SetNodeStatus_loop_nodes [simp]:
  "nodes (SetNodeStatus_loop np ns url status) = nodes np"
  by (induction ns) (simp_all add: SetProps_at_def)

lemma SetNodeStatus_nodes [simp]: "nodes (SetNodeStatus np url status) = nodes np"
  by (simp add: SetNodeStatus_def)

lemma emit_pool [simp]: "pool (emit st e) = pool st"
  by (simp add: emit_def)

lemma dispatch_returns:
  "(nodes (pool st) \<noteq> [] \<longrightarrow>
      (\<exists>st'. loadBalancer up c st = Some st' \<and> length (nodes (pool st')) = length (nodes (pool st))))"
  "(nodes (pool st2) \<noteq> [] \<longrightarrow>
      (\<exists>st'. ServeHTTP up n2 c2 st2 = Some st' \<and> length (nodes (pool st')) = length (nodes (pool st2))))"
  "(nodes (pool st3) \<noteq> [] \<longrightarrow>
      (\<exists>st'. ErrorHandler up n3 c3 st3 = Some st' \<and> length (nodes (pool st')) = length (nodes (pool st3))))"
proof (induction up c st and up n2 c2 st2 and up n3 c3 st3 rule: loadBalancer_ServeHTTP_ErrorHandler.induct)
  case (1 up c st)
  show ?case
  proof (intro impI, cases "GetAttemptsFromContext c > 3")
    case True
    then show "\<exists>st'. loadBalancer up c st = Some st' \<and> length (nodes (pool st')) = length (nodes (pool st))"
      by (simp add: loadBalancer.simps)
  next
    case False
    assume ne: "nodes (pool st) \<noteq> []"
    then have nn: "NextNode (pool st) = Some (Ptr (nodes (pool st) ! 0))"
      by (simp add: NextNode_def)
    from 1 [OF refl False nn refl] ne obtain st1 where
      s: "ServeHTTP up (nodes (pool st) ! 0) c st = Some st1"
      and l: "length (nodes (pool st1)) = length (nodes (pool st))" by blast
    from l ne have "\<not> (True \<and> length (nodes (pool st1)) \<le> 0)" by simp
    from Heapify_Some [OF this] obtain np where h: "Heapify (pool st1) 0 True = Some np" ..
    have "loadBalancer up c st = Some (emit (st1\<lparr>pool := np\<rparr>) HeapifyRoot)"
      using False nn s h by (simp add: loadBalancer.simps)
    with Heapify_length [OF h] l
    show "\<exists>st'. loadBalancer up c st = Some st' \<and> length (nodes (pool st')) = length (nodes (pool st))"
      by simp
  qed
next
  case (2 up n c st)
  show ?case
  proof (cases "up (forwards st) n")
    case True
    then show ?thesis by (simp add: ServeHTTP.simps)
  next
    case False
    then have eq: "ServeHTTP up n c st
        = ErrorHandler up n c (emit (st\<lparr>forwards := forwards st + 1\<rparr>) (Forward n))"
      by (simp add: ServeHTTP.simps)
    have p: "pool (st\<lparr>forwards := forwards st + 1\<rparr>) = pool st" by simp
    show ?thesis unfolding eq using 2 [OF refl False] by (simp only: emit_pool p)
  qed
next
  case (3 up n c st)
  show ?case
  proof (cases "GetRetryFromContext c < 3")
    case True
    then have eq: "ErrorHandler up n c st
        = ServeHTTP up n (c(Retry \<mapsto> GetRetryFromContext c + 1)) (emit st Sleep10ms)"
      by (simp add: ErrorHandler.simps)
    show ?thesis unfolding eq using 3(1) [OF refl True] by (simp only: emit_pool)
  next
    case False
    let ?st1 = "if 3 \<le> GetAttemptsFromContext c
                then st\<lparr>pool := SetNodeStatus (pool st) (URL (heap (pool st) n)) False\<rparr> else st"
    from False have eq: "ErrorHandler up n c st
        = loadBalancer up (c(Attempts \<mapsto> GetAttemptsFromContext c + 1)) ?st1"
      by (simp add: ErrorHandler.simps Let_def)
    have "nodes (pool ?st1) = nodes (pool st)" by simp
    then show ?thesis unfolding eq using 3(2) [OF refl False refl refl refl] by (simp only:)
  qed
qed

section \<open>Claims about the node operations\<close>

text \<open>
  C4. \<open>SetProps\<close> sets the activity flag to the probe result. An unreachable node's weight
  is divided by three (which is multiplying it by one third), whatever the flag was before;
  a reachable node's weight is doubled when it is below 1 and is left alone otherwise. The
  URL is kept, and in the pool only the node addressed changes: the slice and every other
  node stay as they were.
\<close>

theorem SetProps_spec:
  "Active (SetProps n status) = status
   \<and> weight (SetProps n status)
       = (if status then (if weight n < 1 then 2 * weight n else weight n) else weight n / 3)
   \<and> weight n / 3 = weight n * (1 / 3)
   \<and> URL (SetProps n status) = URL n
   \<and> nodes (SetProps_at np a status) = nodes np
   \<and> heap (SetProps_at np a status) = (heap np)(a := SetProps (heap np a) status)"
  by (simp add: SetProps_def SetProps_at_def Let_def)



text \<open>
  C9. \<open>Heapify\<close> terminates on every pool, index and flag. \<open>Heapify_rel\<close> is the call
  relation of the definition above: it relates the arguments of a recursive call to the
  arguments of the call that makes it; \<open>Heapify_dom\<close> holds of the arguments from which
  every chain of such calls is finite. Every argument triple is in that domain. Each call
  that \<open>Heapify\<close> makes to itself, whether after a swap or for a child of weight below 1,
  is at an index larger than its own and within the slice. And a call at an index in
  bounds returns a pool.
\<close>

theorem Heapify_terminates:
  "Heapify_dom (np, idx, isRoot)
   \<and> (Heapify_rel (np', j, r) (np, idx, isRoot) \<longrightarrow> idx < j \<and> j < length (nodes np'))
   \<and> (idx < length (nodes np) \<longrightarrow> (\<exists>np''. Heapify np idx isRoot = Some np''))"
proof (intro conjI)
  show "Heapify_dom (np, idx, isRoot)" using Heapify_dom_all by simp
  show "Heapify_rel (np', j, r) (np, idx, isRoot) \<longrightarrow> idx < j \<and> j < length (nodes np')"
  proof
    assume "Heapify_rel (np', j, r) (np, idx, isRoot)"
    then show "idx < j \<and> j < length (nodes np')"
      by (cases rule: Heapify_rel.cases)
         (use pick_largest_ge [of idx "halve_root np idx isRoot"] Swap_length in
           \<open>auto dest!: Swap_Some\<close>)
  qed
  show "idx < length (nodes np) \<longrightarrow> (\<exists>np''. Heapify np idx isRoot = Some np'')"
    using Heapify_Some [of isRoot np idx] by auto
qed

theorem Heapify_terminates_witness:
  "Heapify_rel (light_root\<lparr>nodes := [1, 0]\<rparr>, 1, False) (light_root, 0, False)
   \<and> 0 < length (nodes light_root)
   \<and> Heapify_dom (light_root, 0, False)
   \<and> (0::nat) < 1 \<and> 1 < length (nodes (light_root\<lparr>nodes := [1, 0]\<rparr>))
   \<and> (\<exists>np''. Heapify light_root 0 False = Some np'')"
proof -
  have l: "(1::nat) = pick_largest (halve_root light_root 0 False) 0"
    by (simp add: light_root_def halve_root_def pick_largest_def getWeight_def isActive_def)
  have s: "Swap (restore_root (halve_root light_root 0 False) 0 False) 1 0
             = Some (light_root\<lparr>nodes := [1, 0]\<rparr>)"
    by (simp add: light_root_def halve_root_def restore_root_def Swap_def)
  have r: "Heapify_rel (light_root\<lparr>nodes := [1, 0]\<rparr>, 1, False) (light_root, 0, False)"
    by (rule Heapify_rel.intros(1) [OF refl refl _ refl l _ s]) simp_all
  have b: "0 < length (nodes light_root)" by (simp add: light_root_def)
  from Heapify_terminates [of light_root 0 False "light_root\<lparr>nodes := [1, 0]\<rparr>" 1 False] r b
  show ?thesis by simp
qed

text \<open>
  C10. A call of \<open>Heapify\<close> that does not panic (any index when \<open>isRoot\<close> is false, an index
  in bounds when it is true) returns a pool whose slice holds the same node addresses as
  before, each as often as before, and has the same length.
\<close>

theorem Heapify_preserves_nodes:
  assumes "\<not> (isRoot \<and> length (nodes np) \<le> idx)"
  shows "\<exists>np'. Heapify np idx isRoot = Some np'
           \<and> mset (nodes np') = mset (nodes np) \<and> length (nodes np') = length (nodes np)"
proof -
  from Heapify_Some [OF assms] obtain np' where h: "Heapify np idx isRoot = Some np'" ..
  with Heapify_mset [OF h] Heapify_length [OF h] show ?thesis by blast
qed

theorem Heapify_preserves_nodes_witness:
  "\<not> (True \<and> length (nodes pool3) \<le> 0)
   \<and> (\<exists>np'. Heapify pool3 0 True = Some np'
         \<and> mset (nodes np') = mset (nodes pool3) \<and> length (nodes np') = length (nodes pool3))"
proof -
  have h: "\<not> (True \<and> length (nodes pool3) \<le> 0)" by (simp add: pool3_nodes)
  from Heapify_preserves_nodes [OF h] h show ?thesis by blast
qed

text \<open>
  C1, as stated, fails, in three ways.

  A root repair can undo the order. The pool of two nodes, after a health check that finds
  the second node unreachable and one that finds both reachable, holds two active nodes
  of weights 1 and 2/3 in heap order. The call \<open>Heapify(0, true)\<close> halves the root to
  1/2, sees the child win, restores the root to 1 and swaps: the active node of weight 2/3
  is now the parent of the active node of weight 1.

  A repair at one index does not order the rest. In the pool of three nodes a health
  check finds the second and third node unreachable, two requests are served by the
  first (weight 1/4), and the next health check finds the first two reachable (weights
  1/2 and 2/3) and the third not, for which it calls \<open>Heapify(2, false)\<close> last. After
  that call the active root of weight 1/2 has an active child of weight 2/3.

  A repair can lift a node past an inactive parent. In the pool \<open>shadowed\<close> every active
  node is at least as heavy as its active children. \<open>Heapify(0, false)\<close> swaps nothing
  at the root, then calls itself for the inactive left child of weight 1/4, which it
  swaps with its active child of weight 1: that node is now a child of the root of
  weight 1/2.
\<close>

theorem Heapify_breaks_heap_property:
  "map_option (\<lambda>np. (map (isActive np) (nodes np), heap_property np))
       (HealthCheck b_down pool2 \<bind> HealthCheck always_up)
     = Some ([True, True], True)
   \<and> map_option heap_property
       (HealthCheck b_down pool2 \<bind> HealthCheck always_up \<bind> (\<lambda>np. Heapify np 0 True))
     = Some False
   \<and> map_option (\<lambda>np. (map (isActive np) (nodes np), map (getWeight np) (nodes np), heap_property np))
       (HealthCheck only_a_up pool3 \<bind> root_repairs 2 \<bind> HealthCheck c_down)
     = Some ([True, True, False], [1 / 2, 2 / 3, 1 / 9], False)
   \<and> heap_property shadowed
   \<and> map_option (\<lambda>np. (nodes np, heap_property np)) (Heapify shadowed 0 False)
     = Some ([0, 3, 2, 1], False)"
  by code_simp

text \<open>
  C1, amended. Take a pool of distinct nodes in which every position of the subtree of
  \<open>idx\<close> other than \<open>idx\<close> has a weight at least that of each of its active children in
  bounds, and a call \<open>Heapify(idx, isRoot)\<close> that does not panic. The call returns, and
  the same holds afterwards of every position of the subtree other than \<open>idx\<close>. It holds
  of \<open>idx\<close> too when \<open>isRoot\<close> is false, and when the node at \<open>idx\<close> is still the one
  that was there. When it holds of index 0, every active node's weight is at least the
  weight of each of its active children.
\<close>

theorem Heapify_restores_order:
  assumes "distinct (nodes np)"
    and "\<not> (isRoot \<and> length (nodes np) \<le> idx)"
    and "ordered_below np idx"
  shows "\<exists>np'. Heapify np idx isRoot = Some np'
           \<and> ordered_below np' idx
           \<and> (\<not> isRoot \<longrightarrow> dominates np' idx)
           \<and> (nodes np' ! idx = nodes np ! idx \<longrightarrow> dominates np' idx)
           \<and> (idx = 0 \<and> dominates np' 0 \<longrightarrow> heap_property np')"
proof -
  from Heapify_Some [OF assms(2)] obtain np' where h: "Heapify np idx isRoot = Some np'" ..
  note o = Heapify_order [OF h assms(1,3)]
  have "heap_property np'" if "idx = 0" "dominates np' 0"
  proof (rule dominates_all_heap_property)
    fix j
    show "dominates np' j"
      using o that desc_zero [of j] by (cases "j = 0") (auto simp: ordered_below_def)
  qed
  with h o show ?thesis by blast
qed

theorem Heapify_restores_order_witness:
  "distinct (nodes light_root) \<and> \<not> (False \<and> length (nodes light_root) \<le> 0)
   \<and> ordered_below light_root 0
   \<and> (\<exists>np'. Heapify light_root 0 False = Some np' \<and> ordered_below np' 0
         \<and> dominates np' 0 \<and> heap_property np')
   \<and> distinct (nodes pool1) \<and> \<not> (True \<and> length (nodes pool1) \<le> 0)
   \<and> ordered_below pool1 0
   \<and> (\<exists>np'. Heapify pool1 0 True = Some np' \<and> nodes np' ! 0 = nodes pool1 ! 0
         \<and> ordered_below np' 0 \<and> dominates np' 0 \<and> heap_property np')"
proof -
  have d: "distinct (nodes light_root)" by (simp add: light_root_def)
  have b: "\<not> (False \<and> length (nodes light_root) \<le> 0)" by simp
  have o: "ordered_below light_root 0"
    by (auto simp: ordered_below_def dominates_def light_root_def)
  have n1: "nodes pool1 = [0]" by (simp add: pool1_def startup_def AddNode_def Let_def)
  have d1: "distinct (nodes pool1)" by (simp add: n1)
  have b1: "\<not> (True \<and> length (nodes pool1) \<le> 0)" by (simp add: n1)
  have o1: "ordered_below pool1 0"
    by (auto simp: ordered_below_def dominates_def n1)
  have e: "map_option (\<lambda>np. nodes np ! 0) (Heapify pool1 0 True) = Some (nodes pool1 ! 0)"
    by code_simp
  from Heapify_restores_order [OF d1 b1 o1] obtain np' where
    h: "Heapify pool1 0 True = Some np'" and ob: "ordered_below np' 0"
    and st: "nodes np' ! 0 = nodes pool1 ! 0 \<longrightarrow> dominates np' 0"
    and hp: "0 = (0::nat) \<and> dominates np' 0 \<longrightarrow> heap_property np'"
    by blast
  from e h have s: "nodes np' ! 0 = nodes pool1 ! 0" by simp
  with h ob st hp have "\<exists>np'. Heapify pool1 0 True = Some np' \<and> nodes np' ! 0 = nodes pool1 ! 0
         \<and> ordered_below np' 0 \<and> dominates np' 0 \<and> heap_property np'"
    by blast
  with Heapify_restores_order [OF d b o] d b o d1 b1 o1 show ?thesis by blast
qed




section \<open>Claims about dispatch\<close>

text \<open>
  C2, as stated, fails. A new request on a pool of one node whose backend never answers is
  forwarded six times, never with success, is answered with a 503, and \<open>Heapify(0, true)\<close>
  then runs three times, once for each \<open>loadBalancer\<close> call that selected a node.
\<close>

theorem loadBalancer_decays_without_success:
  "map_option trace (loadBalancer never_up Map.empty (fresh pool1))
     = Some [Forward 0, Sleep10ms, Forward 0, Sleep10ms, Forward 0, Sleep10ms, Forward 0,
             Forward 0, Forward 0, Http503 ''Service not available'',
             HeapifyRoot, HeapifyRoot, HeapifyRoot]"
  by code_simp

text \<open>
  C2, amended. On a pool that is not empty, a \<open>loadBalancer\<close> call whose attempts value
  exceeds 3 answers 503 and calls no \<open>Heapify\<close>. Any other call forwards through the node
  at index 0; that forwarding call returns whatever the backend does, with the retries and
  failovers of a failure done inside it, and \<open>Heapify(0, true)\<close> is then called once on
  the pool as the forwarding left it.
\<close>

theorem loadBalancer_repairs_after_forwarding:
  assumes "nodes (pool st) \<noteq> []"
  shows "(3 < GetAttemptsFromContext c \<longrightarrow>
            loadBalancer up c st = Some (emit st (Http503 ''Service not available'')))
       \<and> (GetAttemptsFromContext c \<le> 3 \<longrightarrow>
            (\<exists>st1 np. ServeHTTP up (nodes (pool st) ! 0) c st = Some st1
               \<and> Heapify (pool st1) 0 True = Some np
               \<and> loadBalancer up c st = Some (emit (st1\<lparr>pool := np\<rparr>) HeapifyRoot)))"
proof (intro conjI impI)
  assume "3 < GetAttemptsFromContext c"
  then show "loadBalancer up c st = Some (emit st (Http503 ''Service not available''))"
    by (simp add: loadBalancer.simps)
next
  assume le: "GetAttemptsFromContext c \<le> 3"
  from assms have nn: "NextNode (pool st) = Some (Ptr (nodes (pool st) ! 0))"
    by (simp add: NextNode_def)
  from dispatch_returns(2) [of st up "nodes (pool st) ! 0" c] assms obtain st1 where
    s: "ServeHTTP up (nodes (pool st) ! 0) c st = Some st1"
    and l: "length (nodes (pool st1)) = length (nodes (pool st))" by blast
  from l assms have "\<not> (True \<and> length (nodes (pool st1)) \<le> 0)" by simp
  from Heapify_Some [OF this] obtain np where h: "Heapify (pool st1) 0 True = Some np" ..
  have "loadBalancer up c st = Some (emit (st1\<lparr>pool := np\<rparr>) HeapifyRoot)"
    using le nn s h by (simp add: loadBalancer.simps)
  with s h show "\<exists>st1 np. ServeHTTP up (nodes (pool st) ! 0) c st = Some st1
      \<and> Heapify (pool st1) 0 True = Some np
      \<and> loadBalancer up c st = Some (emit (st1\<lparr>pool := np\<rparr>) HeapifyRoot)"
    by blast
qed

theorem loadBalancer_repairs_after_forwarding_witness:
  "nodes (pool (fresh pool3)) \<noteq> [] \<and> GetAttemptsFromContext Map.empty \<le> 3
   \<and> (\<exists>st1 np. ServeHTTP never_up (nodes (pool (fresh pool3)) ! 0) Map.empty (fresh pool3) = Some st1
         \<and> Heapify (pool st1) 0 True = Some np
         \<and> loadBalancer never_up Map.empty (fresh pool3)
             = Some (emit (st1\<lparr>pool := np\<rparr>) HeapifyRoot))
   \<and> 3 < GetAttemptsFromContext [Attempts \<mapsto> 4]
   \<and> loadBalancer never_up [Attempts \<mapsto> 4] (fresh pool3)
       = Some (emit (fresh pool3) (Http503 ''Service not available''))"
proof -
  have h: "nodes (pool (fresh pool3)) \<noteq> []" by (simp add: fresh_def pool3_nodes)
  have a: "GetAttemptsFromContext Map.empty \<le> 3" by (simp add: GetAttemptsFromContext_def)
  have a4: "3 < GetAttemptsFromContext [Attempts \<mapsto> 4]" by (simp add: GetAttemptsFromContext_def)
  from loadBalancer_repairs_after_forwarding [OF h, of Map.empty never_up]
    loadBalancer_repairs_after_forwarding [OF h, of "[Attempts \<mapsto> 4]" never_up] h a a4
  show ?thesis by blast
qed

text \<open>
  C3, evaluated where it fails. After a health check that finds the only node unreachable
  the pool has no active node; a request whose backend answers is still forwarded to that
  node and relayed, with no 503. On an empty pool \<open>loadBalancer\<close> panics in \<open>NextNode\<close>.
  \<open>NextNode\<close> never returns nil, so the 503 of line 142 is never written.
\<close>

theorem loadBalancer_ignores_activity:
  "map_option (\<lambda>np. map (isActive np) (nodes np)) (HealthCheck never_up pool1) = Some [False]
   \<and> map_option trace (HealthCheck never_up pool1 \<bind> (\<lambda>np. loadBalancer always_up Map.empty (fresh np)))
       = Some [Forward 0, Relayed 0, HeapifyRoot]
   \<and> loadBalancer up Map.empty (fresh (startup [])) = None
   \<and> NextNode np \<noteq> Some Null"
proof (intro conjI)
  show "map_option (\<lambda>np. map (isActive np) (nodes np)) (HealthCheck never_up pool1) = Some [False]"
    by code_simp
  show "map_option trace (HealthCheck never_up pool1 \<bind> (\<lambda>np. loadBalancer always_up Map.empty (fresh np)))
       = Some [Forward 0, Relayed 0, HeapifyRoot]"
    by code_simp
  show "loadBalancer up Map.empty (fresh (startup [])) = None"
    by (simp add: loadBalancer.simps GetAttemptsFromContext_def NextNode_def fresh_def startup_def)
  show "NextNode np \<noteq> Some Null"
    by (simp add: NextNode_def)
qed

text \<open>
  C7, evaluated where it fails. \<open>SetNodeStatus\<close> never changes the order of the slice. At a
  failover with attempts 3 and the retries used up, on the pool of two nodes, the failing
  node at index 0 is marked inactive and stays at index 0 above the active node, and the
  request is answered with a 503. The health check, which calls \<open>Heapify\<close> at the index of
  a node it found unreachable, moves such a node below the active one. For the whole
  request, whose every forwarding attempt fails, the only repairs are the three
  \<open>Heapify(0, true)\<close> calls that follow the 503: the first demotes the marked node, the
  other two halve the weight of the node that took its place and never served.
\<close>

theorem SetNodeStatus_no_repair:
  "nodes (SetNodeStatus np url status) = nodes np
   \<and> map_option (\<lambda>st. (nodes (pool st), map (isActive (pool st)) (nodes (pool st)), trace st))
        (ErrorHandler never_up 0 [Attempts \<mapsto> 3, Retry \<mapsto> 3] (fresh pool2))
       = Some ([0, 1], [False, True], [Http503 ''Service not available''])
   \<and> map_option (\<lambda>np. (nodes np, map (isActive np) (nodes np))) (HealthCheck a_down pool2)
       = Some ([1, 0], [True, False])
   \<and> map_option (\<lambda>st. (nodes (pool st), map (getWeight (pool st)) (nodes (pool st))))
        (loadBalancer never_up Map.empty (fresh pool2))
       = Some ([1, 0], [1 / 4, 1 / 3])"
proof (intro conjI)
  show "nodes (SetNodeStatus np url status) = nodes np" by simp
  show "map_option (\<lambda>st. (nodes (pool st), map (isActive (pool st)) (nodes (pool st)), trace st))
        (ErrorHandler never_up 0 [Attempts \<mapsto> 3, Retry \<mapsto> 3] (fresh pool2))
       = Some ([0, 1], [False, True], [Http503 ''Service not available''])"
    by code_simp
  show "map_option (\<lambda>np. (nodes np, map (isActive np) (nodes np))) (HealthCheck a_down pool2)
       = Some ([1, 0], [True, False])"
    by code_simp
  show "map_option (\<lambda>st. (nodes (pool st), map (getWeight (pool st)) (nodes (pool st))))
        (loadBalancer never_up Map.empty (fresh pool2))
       = Some ([1, 0], [1 / 4, 1 / 3])"
    by code_simp
qed

text \<open>
  C8. A forwarding attempt that fails while the retry value is below 3 is followed by the
  10 ms delay and a forwarding attempt to the same node with the retry value one higher;
  no node is selected in between. So for a new request, a node that fails three times and
  then answers has been tried four times, three of them retries, and nothing else has
  happened; when it fails the fourth time as well, \<open>loadBalancer\<close> is entered again, with
  attempts 2.
\<close>

theorem retry_same_node:
  "(GetRetryFromContext c < 3 \<and> \<not> up (forwards st) n \<longrightarrow>
      ServeHTTP up n c st
        = ServeHTTP up n (c(Retry \<mapsto> GetRetryFromContext c + 1))
            (emit (emit (st\<lparr>forwards := forwards st + 1\<rparr>) (Forward n)) Sleep10ms))
   \<and> (\<not> up (forwards st) n \<and> \<not> up (forwards st + 1) n \<and> \<not> up (forwards st + 2) n
        \<and> up (forwards st + 3) n \<longrightarrow>
      ServeHTTP up n Map.empty st
        = Some (st\<lparr>forwards := forwards st + 4,
                   trace := trace st @ [Forward n, Sleep10ms, Forward n, Sleep10ms, Forward n,
                                        Sleep10ms, Forward n, Relayed n]\<rparr>))
   \<and> (\<not> up (forwards st) n \<and> \<not> up (forwards st + 1) n \<and> \<not> up (forwards st + 2) n
        \<and> \<not> up (forwards st + 3) n \<longrightarrow>
      ServeHTTP up n Map.empty st
        = loadBalancer up [Retry \<mapsto> 3, Attempts \<mapsto> 2]
            (st\<lparr>forwards := forwards st + 4,
                trace := trace st @ [Forward n, Sleep10ms, Forward n, Sleep10ms, Forward n,
                                     Sleep10ms, Forward n]\<rparr>))"
  by (simp add: ServeHTTP.simps ErrorHandler.simps GetRetryFromContext_def
        GetAttemptsFromContext_def emit_def Let_def eval_nat_numeral)

theorem retry_same_node_witness:
  "GetRetryFromContext Map.empty < 3
   \<and> \<not> answers_fourth (forwards (fresh pool1)) 0
   \<and> \<not> answers_fourth (forwards (fresh pool1) + 1) 0
   \<and> \<not> answers_fourth (forwards (fresh pool1) + 2) 0
   \<and> answers_fourth (forwards (fresh pool1) + 3) 0
   \<and> \<not> never_up (forwards (fresh pool1)) 0
   \<and> \<not> never_up (forwards (fresh pool1) + 1) 0
   \<and> \<not> never_up (forwards (fresh pool1) + 2) 0
   \<and> \<not> never_up (forwards (fresh pool1) + 3) 0
   \<and> ServeHTTP answers_fourth 0 Map.empty (fresh pool1)
       = ServeHTTP answers_fourth 0 (Map.empty(Retry \<mapsto> GetRetryFromContext Map.empty + 1))
           (emit (emit ((fresh pool1)\<lparr>forwards := forwards (fresh pool1) + 1\<rparr>) (Forward 0))
              Sleep10ms)
   \<and> ServeHTTP answers_fourth 0 Map.empty (fresh pool1)
       = Some ((fresh pool1)\<lparr>forwards := forwards (fresh pool1) + 4,
                 trace := trace (fresh pool1) @
                          [Forward 0, Sleep10ms, Forward 0, Sleep10ms, Forward 0,
                           Sleep10ms, Forward 0, Relayed 0]\<rparr>)
   \<and> ServeHTTP never_up 0 Map.empty (fresh pool1)
       = loadBalancer never_up [Retry \<mapsto> 3, Attempts \<mapsto> 2]
           ((fresh pool1)\<lparr>forwards := forwards (fresh pool1) + 4,
               trace := trace (fresh pool1) @
                        [Forward 0, Sleep10ms, Forward 0, Sleep10ms, Forward 0,
                         Sleep10ms, Forward 0]\<rparr>)"
proof -
  have r: "GetRetryFromContext Map.empty < 3" by (simp add: GetRetryFromContext_def)
  have a: "\<not> answers_fourth (forwards (fresh pool1)) 0"
    "\<not> answers_fourth (forwards (fresh pool1) + 1) 0"
    "\<not> answers_fourth (forwards (fresh pool1) + 2) 0"
    "answers_fourth (forwards (fresh pool1) + 3) 0"
    by (simp_all add: answers_fourth_def fresh_def)
  have n: "\<not> never_up (forwards (fresh pool1)) 0"
    "\<not> never_up (forwards (fresh pool1) + 1) 0"
    "\<not> never_up (forwards (fresh pool1) + 2) 0"
    "\<not> never_up (forwards (fresh pool1) + 3) 0"
    by (simp_all add: never_up_def)
  from retry_same_node [of Map.empty answers_fourth "fresh pool1" 0]
    retry_same_node [of Map.empty never_up "fresh pool1" 0] r a n
  show ?thesis by blast
qed

end
